theory Spec2Isabelle
  imports Complex_Main
begin

section \<open>Data model of \<open>lazer_final5.py\<close>\<close>

text \<open>
  The solver class \<open>Lazor_Solution\<close> works on the dictionary built by the parser:
  grid positions are two-element integer lists \<open>[x, y]\<close>, lazors are four numbers
  \<open>x, y, vx, vy\<close> and targets are two numbers, all of them obtained by the parser as an
  integer times \<open>0.5\<close>. Multiples of one half are represented exactly by Python's
  floats and so is every sum, difference and halving the simulator performs on them,
  hence the numbers are modelled as rationals. The inventory counts are the
  second argument of \<open>itertools.combinations\<close>, which accepts no negative number;
  they are natural numbers here. The object's field \<open>size\<close> is called \<open>size_wh\<close> and
  the method \<open>__call__\<close> is called \<open>call\<close>; every other name is the source's.
\<close>

type_synonym pos = "int \<times> int"
type_synonym point = "rat \<times> rat"
type_synonym lazer = "rat \<times> rat \<times> rat \<times> rat"
type_synonym comb = "pos \<rightharpoonup> string"

record lazor_solution =
  o_l :: "pos list"
  size_wh :: "int \<times> int"
  lazers :: "lazer list"
  points :: "point list"
  A :: nat
  B :: nat
  C :: nat
  A_l :: "pos list"
  B_l :: "pos list"
  C_l :: "pos list"
  sel_comb :: comb

text \<open>\<open>float.is_integer()\<close>.\<close>

definition is_integer :: "rat \<Rightarrow> bool" where
  "is_integer x = (of_int \<lfloor>x\<rfloor> = x)"

text \<open>
  \<open>upd_pos in self.sel_comb\<close> and \<open>self.sel_comb[upd_pos]\<close>: the keys are tuples of
  integers, the looked-up tuple holds floats. Python finds the key when both
  floats are whole and equal to the key's integers.
\<close>

definition dict_get :: "comb \<Rightarrow> rat \<times> rat \<Rightarrow> string option" where
  "dict_get d k =
     (case k of (u, v) \<Rightarrow>
        if is_integer u \<and> is_integer v then d (\<lfloor>u\<rfloor>, \<lfloor>v\<rfloor>) else None)"

section \<open>The beam simulator\<close>

definition pos_chk :: "lazor_solution \<Rightarrow> rat \<times> rat \<Rightarrow> bool" where
  "pos_chk self upd =
     (case upd of (x, y) \<Rightarrow>
        0 \<le> x \<and> x < of_int (fst (size_wh self)) \<and> 0 \<le> y \<and> y < of_int (snd (size_wh self)))"

definition reflect :: "lazer \<Rightarrow> lazer" where
  "reflect lazer =
     (case lazer of (x, y, vx, vy) \<Rightarrow>
        if is_integer x then (x - vx, y + vy, - vx, vy)
        else (x + vx, y - vy, vx, - vy))"

definition refract :: "lazer \<Rightarrow> lazer list" where
  "refract lazer =
     (case lazer of (x, y, vx, vy) \<Rightarrow>
        let path1 = (x + vx, y + vy, vx, vy);
            path2 = (if is_integer x then (x - vx, y + vy, - vx, vy)
                     else (x + vx, y - vy, vx, - vy))
        in [path1, path2])"

text \<open>The \<open>if\<close>/\<open>elif\<close> chain of \<open>check_solution\<close> that computes \<open>upd_pos\<close>.\<close>

definition upd_pos :: "lazer \<Rightarrow> rat \<times> rat" where
  "upd_pos lazer =
     (case lazer of (x, y, vx, vy) \<Rightarrow>
        if is_integer x \<and> vx < 0 then (x - 1, (y * 2 - 1) / 2)
        else if is_integer x \<and> vx > 0 then (x, (y * 2 - 1) / 2)
        else if \<not> is_integer x \<and> vy < 0 then ((x * 2 - 1) / 2, y - 1)
        else ((x * 2 - 1) / 2, y))"

text \<open>
  One pass through the body of the inner \<open>while True\<close> loop of \<open>check_solution\<close>:
  it returns \<open>True\<close> from the method, leaves the loop with \<open>break\<close> (handing over the
  lazors it appended to \<open>active_lasers\<close>), or goes round again with a new lazor state.
\<close>

datatype pass = Return_True | Break "point list" "lazer list" | Again lazer "point list"

definition body :: "lazor_solution \<Rightarrow> lazer \<Rightarrow> point list \<Rightarrow> pass" where
  "body self lazer remaining_points =
     (case lazer of (x, y, vx, vy) \<Rightarrow>
        let pos = (x, y);
            remaining = filter (\<lambda>p. p \<noteq> pos) remaining_points
        in if remaining = [] then Return_True
           else let upd = upd_pos (x, y, vx, vy)
             in if \<not> pos_chk self upd then Break remaining []
                else (case dict_get (sel_comb self) upd of
                        Some block_type \<Rightarrow>
                          if block_type = ''A'' then Again (reflect (x, y, vx, vy)) remaining
                          else if block_type = ''C'' then Break remaining (refract (x, y, vx, vy))
                          else Break remaining []
                      | None \<Rightarrow> Again (x + vx, y + vy, vx, vy) remaining))"

text \<open>
  The inner loop. It has no exit of its own besides those of the body, so it is a
  partial function: \<open>None\<close> is the loop that never ends, \<open>Some None\<close> is
  \<open>return True\<close>, and \<open>Some (Some (ps, new))\<close> is a \<open>break\<close> with the outstanding
  targets and the lazors appended to the queue.
\<close>

partial_function (option) trace ::
  "lazor_solution \<Rightarrow> lazer \<Rightarrow> point list \<Rightarrow> (point list \<times> lazer list) option option" where
  "trace self lazer remaining_points =
     (case body self lazer remaining_points of
        Return_True \<Rightarrow> Some None
      | Break remaining new \<Rightarrow> Some (Some (remaining, new))
      | Again lazer' remaining \<Rightarrow> trace self lazer' remaining)"

text \<open>The outer loop \<open>while active_lasers\<close> with \<open>pop(0)\<close> and the final \<open>return\<close>.\<close>

partial_function (option) while_active ::
  "lazor_solution \<Rightarrow> lazer list \<Rightarrow> point list \<Rightarrow> bool option" where
  "while_active self active_lasers remaining_points =
     (case active_lasers of
        [] \<Rightarrow> Some (remaining_points = [])
      | lazer # rest \<Rightarrow>
          Option.bind (trace self lazer remaining_points)
            (\<lambda>r. case r of
                    None \<Rightarrow> Some True
                  | Some (remaining, new) \<Rightarrow> while_active self (rest @ new) remaining))"

definition check_solution :: "lazor_solution \<Rightarrow> bool option" where
  "check_solution self = while_active self (lazers self) (points self)"

section \<open>The placement enumerator and the solver\<close>

text \<open>
  \<open>itertools.combinations(xs, r)\<close>: the \<open>r\<close>-element selections of \<open>xs\<close> by position,
  in lexicographic order of the positions.
\<close>

fun combinations :: "'a list \<Rightarrow> nat \<Rightarrow> 'a list list" where
  "combinations xs 0 = [ [] ]"
| "combinations [] (Suc r) = []"
| "combinations (x # xs) (Suc r) = map ((#) x) (combinations xs r) @ combinations xs (Suc r)"

text \<open>\<open>for pos in block_position: self.sel_comb[(pos[0], pos[1])] = block_name\<close>.\<close>

definition fill :: "pos list \<Rightarrow> string \<Rightarrow> comb \<Rightarrow> comb" where
  "fill block_position block_name d = fold (\<lambda>pos d. d(pos \<mapsto> block_name)) block_position d"

text \<open>The dictionary built for one candidate: the chosen cells, then the fixed blocks.\<close>

definition populate :: "lazor_solution \<Rightarrow> pos list \<Rightarrow> pos list \<Rightarrow> pos list \<Rightarrow> comb" where
  "populate self a_comb b_comb c_comb =
     fill (C_l self) ''C'' (fill (B_l self) ''B'' (fill (A_l self) ''A''
       (fill c_comb ''C'' (fill b_comb ''B'' (fill a_comb ''A'' Map.empty)))))"

text \<open>
  The three nested \<open>for\<close> loops of \<open>__call__\<close>. Each returns \<open>None\<close> when a simulation
  it started never ends; otherwise the value that \<open>__call__\<close> returns from inside the
  loop (\<open>Some\<close> dictionary) or \<open>None\<close> when the loop runs to its end, together with
  the object as the loop leaves it.
\<close>

fun for_i_c ::
  "lazor_solution \<Rightarrow> pos list \<Rightarrow> pos list \<Rightarrow> pos list list \<Rightarrow>
     (comb option \<times> lazor_solution) option" where
  "for_i_c self a_comb b_comb [] = Some (None, self)"
| "for_i_c self a_comb b_comb (i_c # o_lC) =
     (let self' = self\<lparr>sel_comb := populate self a_comb b_comb i_c\<rparr>
      in case check_solution self' of
           None \<Rightarrow> None
         | Some True \<Rightarrow> Some (Some (sel_comb self'), self')
         | Some False \<Rightarrow> for_i_c self' a_comb b_comb o_lC)"

fun for_i_b ::
  "lazor_solution \<Rightarrow> pos list \<Rightarrow> pos list \<Rightarrow> pos list list \<Rightarrow>
     (comb option \<times> lazor_solution) option" where
  "for_i_b self o_l' a_comb [] = Some (None, self)"
| "for_i_b self o_l' a_comb (i_b # o_lB) =
     (let o_l_b = filter (\<lambda>pos. pos \<notin> set i_b) o_l'
      in case for_i_c self a_comb i_b (combinations o_l_b (C self)) of
           None \<Rightarrow> None
         | Some (Some d, self') \<Rightarrow> Some (Some d, self')
         | Some (None, self') \<Rightarrow> for_i_b self' o_l' a_comb o_lB)"

fun for_i_a ::
  "lazor_solution \<Rightarrow> pos list list \<Rightarrow> (comb option \<times> lazor_solution) option" where
  "for_i_a self [] = Some (None, self)"
| "for_i_a self (i_a # o_lA) =
     (let o_l' = filter (\<lambda>pos. pos \<notin> set i_a) (o_l self)
      in case for_i_b self o_l' i_a (combinations o_l' (B self)) of
           None \<Rightarrow> None
         | Some (Some d, self') \<Rightarrow> Some (Some d, self')
         | Some (None, self') \<Rightarrow> for_i_a self' o_lA)"

definition call :: "lazor_solution \<Rightarrow> (comb option \<times> lazor_solution) option" where
  "call self = for_i_a self (combinations (o_l self) (A self))"

section \<open>Properties to be checked\<close>

text \<open>
  The half-integer invariant of a beam state as the specification words it: exactly
  one of \<open>x\<close>, \<open>y\<close> is whole, the other lies one half above a whole number, and both
  deltas are among \<open>-0.5\<close>, \<open>0\<close>, \<open>+0.5\<close>.
\<close>

definition half_integer_inv :: "lazer \<Rightarrow> bool" where
  "half_integer_inv lazer =
     (case lazer of (x, y, dx, dy) \<Rightarrow>
        ((is_integer x \<and> is_integer (y - 1 / 2)) \<or> (is_integer y \<and> is_integer (x - 1 / 2)))
        \<and> dx \<in> {- (1 / 2), 0, 1 / 2} \<and> dy \<in> {- (1 / 2), 0, 1 / 2})"

text \<open>
  The same invariant for beams whose deltas are zero together: a beam that moves
  moves diagonally.
\<close>

definition paired_inv :: "lazer \<Rightarrow> bool" where
  "paired_inv lazer =
     (case lazer of (x, y, dx, dy) \<Rightarrow> half_integer_inv (x, y, dx, dy) \<and> (dx = 0) = (dy = 0))"

text \<open>
  One pass of the inner loop seen from the outer loop: the configuration is the work
  queue, with the lazor being traced at its head, and the outstanding targets.
  There is no next configuration when the queue is empty or the pass returns
  \<open>True\<close>. \<open>passes\<close> runs a given number of passes.
\<close>

definition pass_step ::
  "lazor_solution \<Rightarrow> lazer list \<times> point list \<Rightarrow> (lazer list \<times> point list) option" where
  "pass_step self c =
     (case c of
        ([], remaining_points) \<Rightarrow> None
      | (lazer # rest, remaining_points) \<Rightarrow>
          (case body self lazer remaining_points of
             Return_True \<Rightarrow> None
           | Break remaining new \<Rightarrow> Some (rest @ new, remaining)
           | Again lazer' remaining \<Rightarrow> Some (lazer' # rest, remaining)))"

fun passes ::
  "lazor_solution \<Rightarrow> nat \<Rightarrow> lazer list \<times> point list \<Rightarrow> (lazer list \<times> point list) option" where
  "passes self 0 c = Some c"
| "passes self (Suc n) c =
     (case pass_step self c of None \<Rightarrow> None | Some c' \<Rightarrow> passes self n c')"

text \<open>
  The enumeration of the specification, section 4.1, as a list: for each selection of
  Reflect cells \<open>i_a\<close> (outermost, \<open>candidates\<close>) every selection of Opaque cells \<open>i_b\<close>
  among the cells left (\<open>cands_a\<close>), and for each of those every selection of Split
  cells among the cells then left (\<open>cands_b\<close>), each turned into the dictionary of the
  chosen and the fixed blocks.
\<close>

definition cands_b :: "lazor_solution \<Rightarrow> pos list \<Rightarrow> pos list \<Rightarrow> pos list \<Rightarrow> comb list" where
  "cands_b self o_l' a_comb i_b =
     map (populate self a_comb i_b) (combinations (filter (\<lambda>pos. pos \<notin> set i_b) o_l') (C self))"

definition cands_a :: "lazor_solution \<Rightarrow> pos list \<Rightarrow> comb list" where
  "cands_a self i_a =
     concat (map (cands_b self (filter (\<lambda>pos. pos \<notin> set i_a) (o_l self)) i_a)
       (combinations (filter (\<lambda>pos. pos \<notin> set i_a) (o_l self)) (B self)))"

definition candidates :: "lazor_solution \<Rightarrow> comb list" where
  "candidates self = concat (map (cands_a self) (combinations (o_l self) (A self)))"

text \<open>
  The solver of the specification, section 4.3: simulate the candidates in order and
  stop at the first success. The candidate under test is stored in the object, as
  \<open>__call__\<close> does.
\<close>

fun try_all :: "lazor_solution \<Rightarrow> comb list \<Rightarrow> (comb option \<times> lazor_solution) option" where
  "try_all self [] = Some (None, self)"
| "try_all self (d # ds) =
     (let self' = self\<lparr>sel_comb := d\<rparr>
      in case check_solution self' of
           None \<Rightarrow> None
         | Some True \<Rightarrow> Some (Some d, self')
         | Some False \<Rightarrow> try_all self' ds)"

section \<open>Example puzzles\<close>

text \<open>
  A three by three board, in the parser's input format
  \<^verbatim>\<open>
  GRID START
  o A x
  A o A
  x A x
  GRID STOP
  A 1
  L 2 3 1 -1
  P 1 2
  \<close>
  The centre cell is open and has a fixed reflecting block on each of its four
  sides; the lazor starts on the left edge of the centre cell and the target lies on
  the top edge of the cell to its left. \<open>ring_first\<close> and \<open>ring_second\<close> are the
  object while the first and the second candidate are simulated, \<open>ring_split\<close> has a
  refracting block in the centre cell instead. \<open>swapped_puzzle\<close> lists the two open
  cells in the other order.
\<close>

definition ring_puzzle :: lazor_solution where
  "ring_puzzle =
     \<lparr>o_l = [(0, 2), (1, 1)], size_wh = (3, 3), lazers = [(1, 3 / 2, 1 / 2, 1 / 2)],
      points = [(1 / 2, 2)], A = 1, B = 0, C = 0,
      A_l = [(1, 2), (0, 1), (2, 1), (1, 0)], B_l = [], C_l = [], sel_comb = Map.empty\<rparr>"

definition ring_first :: lazor_solution where
  "ring_first = ring_puzzle\<lparr>sel_comb := populate ring_puzzle [(0, 2)] [] []\<rparr>"

definition ring_second :: lazor_solution where
  "ring_second = ring_puzzle\<lparr>sel_comb := populate ring_puzzle [(1, 1)] [] []\<rparr>"

definition ring_split :: lazor_solution where
  "ring_split = ring_puzzle\<lparr>sel_comb := [(1, 1) \<mapsto> ''C'']\<rparr>"

text \<open>The states the lazor of the ring puzzle runs through with the first candidate.\<close>

definition ring_cycle :: "lazer list" where
  "ring_cycle =
     [(1, 3 / 2, 1 / 2, 1 / 2), (3 / 2, 2, 1 / 2, 1 / 2), (2, 3 / 2, 1 / 2, - (1 / 2)),
      (3 / 2, 1, - (1 / 2), - (1 / 2)), (1, 3 / 2, - (1 / 2), 1 / 2)]"

definition swapped_puzzle :: lazor_solution where
  "swapped_puzzle = ring_puzzle\<lparr>o_l := [(1, 1), (0, 2)]\<rparr>"

definition swapped_first :: lazor_solution where
  "swapped_first = swapped_puzzle\<lparr>sel_comb := populate swapped_puzzle [(1, 1)] [] []\<rparr>"

section \<open>Whole and half numbers\<close>

lemma is_integer_iff: "is_integer x \<longleftrightarrow> x \<in> \<int>"
  unfolding is_integer_def
  by (metis Ints_of_int Ints_cases floor_of_int)

lemma half_not_integer: "is_integer (y - 1 / 2) \<Longrightarrow> \<not> is_integer y"
  unfolding is_integer_iff by force

lemma half_floor: "is_integer (y - 1 / 2) \<Longrightarrow> of_int \<lfloor>y\<rfloor> = y - 1 / 2"
proof -
  assume "is_integer (y - 1 / 2)"
  then obtain k :: int where k: "y - 1 / 2 = of_int k"
    unfolding is_integer_iff by (auto elim: Ints_cases)
  then have "y = of_int k + 1 / 2" by simp
  then have "\<lfloor>y\<rfloor> = k" by (simp add: floor_unique)
  with k show ?thesis by simp
qed

lemma halve: "((y::rat) * 2 - 1) / 2 = y - 1 / 2"
  by (simp add: diff_divide_distrib)

lemma upd_pos_x:
  "is_integer x \<Longrightarrow> dx \<noteq> 0 \<Longrightarrow> upd_pos (x, y, dx, dy) = (if dx > 0 then x else x - 1, y - 1 / 2)"
  by (simp add: upd_pos_def halve)

lemma upd_pos_y:
  "\<not> is_integer x \<Longrightarrow> dy \<noteq> 0 \<Longrightarrow> upd_pos (x, y, dx, dy) = (x - 1 / 2, if dy > 0 then y else y - 1)"
  by (simp add: upd_pos_def halve)

section \<open>Reflection and the entered cell\<close>

text \<open>
  Claim C5. For every beam state that satisfies the half-integer invariant, \<open>reflect\<close>
  negates the delta of the axis whose coordinate is whole, subtracts the old delta on
  that axis and adds the delta on the other axis: when \<open>x\<close> is whole the result is
  \<open>(x - dx, y + dy, -dx, dy)\<close>, when \<open>y\<close> is whole it is \<open>(x + dx, y - dy, dx, -dy)\<close>.
\<close>

theorem reflect_mirrors:
  assumes "half_integer_inv (x, y, dx, dy)"
  shows "(is_integer x \<longrightarrow> reflect (x, y, dx, dy) = (x - dx, y + dy, - dx, dy)) \<and>
         (is_integer y \<longrightarrow> reflect (x, y, dx, dy) = (x + dx, y - dy, dx, - dy))"
proof (intro conjI impI)
  assume "is_integer x"
  then show "reflect (x, y, dx, dy) = (x - dx, y + dy, - dx, dy)"
    by (simp add: reflect_def)
next
  assume "is_integer y"
  with assms have "is_integer (x - 1 / 2)"
    using half_not_integer[of y] by (auto simp: half_integer_inv_def)
  then have "\<not> is_integer x" by (rule half_not_integer)
  then show "reflect (x, y, dx, dy) = (x + dx, y - dy, dx, - dy)"
    by (simp add: reflect_def)
qed

text \<open>
  Claim C4, amended. For every beam state that satisfies the half-integer invariant
  and whose delta along the whole coordinate is not zero, the entered cell is: column
  \<open>x\<close> if \<open>dx > 0\<close> else \<open>x - 1\<close> and row \<open>floor y = y - 0.5\<close> when \<open>x\<close> is whole; row \<open>y\<close> if
  \<open>dy > 0\<close> else \<open>y - 1\<close> and column \<open>floor x = x - 0.5\<close> when \<open>y\<close> is whole.
\<close>

theorem upd_pos_entered_cell:
  assumes "half_integer_inv (x, y, dx, dy)"
  shows "(is_integer x \<and> dx \<noteq> 0 \<longrightarrow>
            upd_pos (x, y, dx, dy) = (if dx > 0 then x else x - 1, of_int \<lfloor>y\<rfloor>) \<and>
            of_int \<lfloor>y\<rfloor> = y - 1 / 2) \<and>
         (is_integer y \<and> dy \<noteq> 0 \<longrightarrow>
            upd_pos (x, y, dx, dy) = (of_int \<lfloor>x\<rfloor>, if dy > 0 then y else y - 1) \<and>
            of_int \<lfloor>x\<rfloor> = x - 1 / 2)"
proof (intro conjI impI)
  assume h: "is_integer x \<and> dx \<noteq> 0"
  with assms have "is_integer (y - 1 / 2)"
    using half_not_integer[of x] by (auto simp: half_integer_inv_def)
  then show fy: "of_int \<lfloor>y\<rfloor> = y - 1 / 2" by (rule half_floor)
  from h show "upd_pos (x, y, dx, dy) = (if dx > 0 then x else x - 1, of_int \<lfloor>y\<rfloor>)"
    using upd_pos_x[of x dx y dy] fy by simp
next
  assume h: "is_integer y \<and> dy \<noteq> 0"
  with assms have hx: "is_integer (x - 1 / 2)"
    using half_not_integer[of y] by (auto simp: half_integer_inv_def)
  then show fx: "of_int \<lfloor>x\<rfloor> = x - 1 / 2" by (rule half_floor)
  from hx have "\<not> is_integer x" by (rule half_not_integer)
  with h show "upd_pos (x, y, dx, dy) = (of_int \<lfloor>x\<rfloor>, if dy > 0 then y else y - 1)"
    using upd_pos_y[of x dy y dx] fx by simp
qed

section \<open>Preservation of the invariant\<close>

lemma integer_pm1: "is_integer x \<Longrightarrow> is_integer (x - 1) \<and> is_integer (x + 1)"
  unfolding is_integer_iff by simp

lemma integer_shift:
  assumes "is_integer x" and "d = - (1 / 2) \<or> d = 1 / 2"
  shows "is_integer (x + d - 1 / 2)" and "is_integer (x - d - 1 / 2)"
proof -
  have a: "x + 1 / 2 - 1 / 2 = x" "x - 1 / 2 - 1 / 2 = x - 1"
          "x - - (1 / 2) - 1 / 2 = x" "x + - (1 / 2) - 1 / 2 = x - 1" by simp_all
  from assms(2) show "is_integer (x + d - 1 / 2)"
  proof
    assume "d = - (1 / 2)" then show ?thesis using integer_pm1[OF assms(1)] by (simp only: a)
  next
    assume "d = 1 / 2" then show ?thesis using assms(1) by (simp only: a)
  qed
  from assms(2) show "is_integer (x - d - 1 / 2)"
  proof
    assume "d = - (1 / 2)" then show ?thesis using assms(1) by (simp only: a)
  next
    assume "d = 1 / 2" then show ?thesis using integer_pm1[OF assms(1)] by (simp only: a)
  qed
qed

lemma half_shift:
  assumes "is_integer (y - 1 / 2)" and "d = - (1 / 2) \<or> d = 1 / 2"
  shows "is_integer (y + d)" and "is_integer (y - d)"
proof -
  have a: "y + 1 / 2 = y - 1 / 2 + 1" "y - - (1 / 2) = y - 1 / 2 + 1"
          "y + - (1 / 2) = y - 1 / 2" by simp_all
  from assms(2) show "is_integer (y + d)"
  proof
    assume "d = - (1 / 2)" then show ?thesis using assms(1) by (simp only: a)
  next
    assume "d = 1 / 2" then show ?thesis using integer_pm1[OF assms(1)] by (simp only: a)
  qed
  from assms(2) show "is_integer (y - d)"
  proof
    assume "d = - (1 / 2)" then show ?thesis using integer_pm1[OF assms(1)] by (simp only: a)
  next
    assume "d = 1 / 2" then show ?thesis using assms(1) by (simp only: a)
  qed
qed

lemma paired_inv_cases:
  assumes "paired_inv (x, y, dx, dy)"
  obtains "dx = 0" "dy = 0" | "dx = - (1 / 2) \<or> dx = 1 / 2" "dy = - (1 / 2) \<or> dy = 1 / 2"
  using assms by (auto simp: paired_inv_def half_integer_inv_def)

lemma paired_inv_parity:
  assumes "paired_inv (x, y, dx, dy)"
  obtains "is_integer x" "is_integer (y - 1 / 2)" | "is_integer y" "is_integer (x - 1 / 2)"
  using assms by (auto simp: paired_inv_def half_integer_inv_def)

lemma paired_invI:
  assumes "(is_integer x \<and> is_integer (y - 1 / 2)) \<or> (is_integer y \<and> is_integer (x - 1 / 2))"
    and "dx = - (1 / 2) \<or> dx = 1 / 2" and "dy = - (1 / 2) \<or> dy = 1 / 2"
  shows "paired_inv (x, y, dx, dy)"
  using assms by (auto simp: paired_inv_def half_integer_inv_def)

lemma paired_inv_advance:
  assumes "paired_inv (x, y, dx, dy)"
  shows "paired_inv (x + dx, y + dy, dx, dy)"
  using assms
proof (cases rule: paired_inv_cases)
  case 1
  with assms show ?thesis by simp
next
  case d: 2
  from assms show ?thesis
  proof (cases rule: paired_inv_parity)
    case 1
    then have "is_integer (y + dy)" "is_integer (x + dx - 1 / 2)"
      using half_shift(1) integer_shift(1) d by blast+
    with d show ?thesis by (intro paired_invI) simp_all
  next
    case 2
    then have "is_integer (x + dx)" "is_integer (y + dy - 1 / 2)"
      using half_shift(1) integer_shift(1) d by blast+
    with d show ?thesis by (intro paired_invI) simp_all
  qed
qed

lemma paired_inv_reflect:
  assumes "paired_inv (x, y, dx, dy)"
  shows "paired_inv (reflect (x, y, dx, dy))"
  using assms
proof (cases rule: paired_inv_cases)
  case 1
  with assms show ?thesis by (simp add: reflect_def)
next
  case d: 2
  then have d': "- dx = - (1 / 2) \<or> - dx = 1 / 2" "- dy = - (1 / 2) \<or> - dy = 1 / 2" by auto
  from assms show ?thesis
  proof (cases rule: paired_inv_parity)
    case 1
    then have "is_integer (y + dy)" "is_integer (x - dx - 1 / 2)"
      using half_shift(1) integer_shift(2) d by blast+
    with d d' 1 show ?thesis by (simp add: reflect_def paired_invI)
  next
    case 2
    then have "is_integer (x + dx)" "is_integer (y - dy - 1 / 2)" "\<not> is_integer x"
      using half_shift(1) integer_shift(2) half_not_integer d by blast+
    with d d' show ?thesis by (simp add: reflect_def paired_invI)
  qed
qed

lemma refract_eq: "refract (x, y, dx, dy) = [(x + dx, y + dy, dx, dy), reflect (x, y, dx, dy)]"
  by (simp add: refract_def reflect_def)

lemma body_cases:
  "body self (x, y, dx, dy) pts = Return_True \<or>
   body self (x, y, dx, dy) pts = Break (filter (\<lambda>p. p \<noteq> (x, y)) pts) [] \<or>
   body self (x, y, dx, dy) pts = Break (filter (\<lambda>p. p \<noteq> (x, y)) pts) (refract (x, y, dx, dy)) \<or>
   body self (x, y, dx, dy) pts = Again (reflect (x, y, dx, dy)) (filter (\<lambda>p. p \<noteq> (x, y)) pts) \<or>
   body self (x, y, dx, dy) pts = Again (x + dx, y + dy, dx, dy) (filter (\<lambda>p. p \<noteq> (x, y)) pts)"
  by (simp add: body_def Let_def split: option.split)

text \<open>
  Claim C8, amended. For every beam state that satisfies the half-integer invariant
  and whose deltas are both zero or both non-zero, each simulation step keeps the
  invariant and the pairing of the deltas: the state the inner loop continues with
  (after advancing by \<open>(dx, dy)\<close> or after reflecting), the two states \<open>refract\<close>
  appends to the queue, and the result of \<open>reflect\<close>.
\<close>

theorem paired_inv_preserved:
  assumes "paired_inv lazer"
  shows "paired_inv (reflect lazer) \<and> list_all paired_inv (refract lazer) \<and>
         (\<forall>self pts lazer' pts'. body self lazer pts = Again lazer' pts' \<longrightarrow> paired_inv lazer') \<and>
         (\<forall>self pts pts' new. body self lazer pts = Break pts' new \<longrightarrow> list_all paired_inv new)"
proof -
  obtain x y dx dy where l: "lazer = (x, y, dx, dy)" by (cases lazer) auto
  have r: "paired_inv (reflect lazer)" and a: "paired_inv (x + dx, y + dy, dx, dy)"
    using assms paired_inv_reflect paired_inv_advance unfolding l by blast+
  then have s: "list_all paired_inv (refract lazer)"
    unfolding l by (simp add: refract_eq)
  have "paired_inv lazer'" if "body self lazer pts = Again lazer' pts'" for self pts lazer' pts'
    using body_cases[of self x y dx dy pts] that r a unfolding l by auto
  moreover have "list_all paired_inv new" if "body self lazer pts = Break pts' new" for self pts pts' new
    using body_cases[of self x y dx dy pts] that s unfolding l by auto
  ultimately show ?thesis using r s by blast
qed

section \<open>The loops of the simulator\<close>

lemma trace_Return: "body self l pts = Return_True \<Longrightarrow> trace self l pts = Some None"
  by (subst trace.simps) simp

lemma trace_Break:
  "body self l pts = Break pts' new \<Longrightarrow> trace self l pts = Some (Some (pts', new))"
  by (subst trace.simps) simp

lemma trace_Again: "body self l pts = Again l' pts' \<Longrightarrow> trace self l pts = trace self l' pts'"
  by (subst trace.simps) simp

lemma while_active_Nil: "while_active self [] pts = Some (pts = [])"
  by (subst while_active.simps) simp

lemma while_active_Cons:
  "while_active self (l # rest) pts =
     Option.bind (trace self l pts)
       (\<lambda>r. case r of None \<Rightarrow> Some True
             | Some (remaining, new) \<Rightarrow> while_active self (rest @ new) remaining)"
  by (subst while_active.simps) simp

lemma while_active_Return:
  "body self l pts = Return_True \<Longrightarrow> while_active self (l # rest) pts = Some True"
  by (simp add: while_active_Cons trace_Return)

lemma while_active_Break:
  "body self l pts = Break pts' new \<Longrightarrow>
     while_active self (l # rest) pts = while_active self (rest @ new) pts'"
  by (simp add: while_active_Cons trace_Break)

lemma while_active_Again:
  "body self l pts = Again l' pts' \<Longrightarrow>
     while_active self (l # rest) pts = while_active self (l' # rest) pts'"
  by (simp add: while_active_Cons trace_Again)

lemma pass_step_while_active:
  assumes "pass_step self (q, pts) = Some (q', pts')"
  shows "while_active self q pts = while_active self q' pts'"
proof (cases q)
  case Nil
  with assms show ?thesis by (simp add: pass_step_def)
next
  case (Cons l rest)
  show ?thesis
  proof (cases "body self l pts")
    case Return_True
    with assms Cons show ?thesis by (simp add: pass_step_def)
  next
    case (Break r new)
    with assms Cons show ?thesis by (auto simp: pass_step_def while_active_Break)
  next
    case (Again l' r)
    with assms Cons show ?thesis by (auto simp: pass_step_def while_active_Again)
  qed
qed

lemma body_filter:
  "body self (x, y, dx, dy) pts = Break pts' new \<Longrightarrow> pts' = filter (\<lambda>p. p \<noteq> (x, y)) pts"
  "body self (x, y, dx, dy) pts = Again l' pts' \<Longrightarrow> pts' = filter (\<lambda>p. p \<noteq> (x, y)) pts"
  using body_cases[of self x y dx dy pts] by auto

lemma body_Return_iff:
  "body self (x, y, dx, dy) pts = Return_True \<longleftrightarrow> filter (\<lambda>p. p \<noteq> (x, y)) pts = []"
  by (simp add: body_def Let_def split: option.split)

lemma pass_step_mono:
  assumes "pass_step self (q, pts) = Some (q', pts')"
  shows "length pts' \<le> length pts \<and> set pts' \<subseteq> set pts"
proof (cases q)
  case Nil
  with assms show ?thesis by (simp add: pass_step_def)
next
  case (Cons l rest)
  obtain x y dx dy where l: "l = (x, y, dx, dy)" by (cases l) auto
  from assms Cons have "pts' = filter (\<lambda>p. p \<noteq> (x, y)) pts"
    using body_filter[of self x y dx dy pts] unfolding l
    by (auto simp: pass_step_def split: pass.splits)
  then show ?thesis by auto
qed

lemma passes_mono:
  "passes self n (q, pts) = Some (q', pts') \<Longrightarrow>
     length pts' \<le> length pts \<and> set pts' \<subseteq> set pts \<and>
     while_active self q pts = while_active self q' pts'"
proof (induction n arbitrary: q pts)
  case 0
  then show ?case by simp
next
  case (Suc n)
  then obtain q1 pts1 where s: "pass_step self (q, pts) = Some (q1, pts1)"
    and r: "passes self n (q1, pts1) = Some (q', pts')"
    by (auto split: option.splits)
  from Suc.IH[OF r] pass_step_mono[OF s] pass_step_while_active[OF s]
  show ?case by auto
qed

text \<open>
  Claim C7. Within one run of \<open>check_solution\<close>, after any number of passes of the
  inner loop the list of outstanding targets is no longer than before and holds only
  targets that were outstanding before, so a removed target never comes back; the
  passes do not change what the run returns; and as soon as removing the current
  position leaves no target outstanding, the pass returns \<open>True\<close> and so does the run.
\<close>

theorem outstanding_targets_monotone:
  assumes "passes self n (q, pts) = Some (q', pts')"
  shows "length pts' \<le> length pts \<and> set pts' \<subseteq> set pts \<and>
         while_active self q pts = while_active self q' pts' \<and>
         (\<forall>x y dx dy rest. q' = (x, y, dx, dy) # rest \<and> filter (\<lambda>p. p \<noteq> (x, y)) pts' = [] \<longrightarrow>
            body self (x, y, dx, dy) pts' = Return_True \<and> while_active self q pts = Some True)"
proof -
  from passes_mono[OF assms] have s: "length pts' \<le> length pts" "set pts' \<subseteq> set pts"
    and w: "while_active self q pts = while_active self q' pts'" by simp_all
  have "body self (x, y, dx, dy) pts' = Return_True \<and> while_active self q pts = Some True"
    if "q' = (x, y, dx, dy) # rest" "filter (\<lambda>p. p \<noteq> (x, y)) pts' = []" for x y dx dy rest
    using that w by (simp add: body_Return_iff while_active_Return)
  with s w show ?thesis by blast
qed


lemma check_solution_no_points:
  assumes "points self = []"
  shows "check_solution self = Some True"
proof (cases "lazers self")
  case Nil
  with assms show ?thesis by (simp add: check_solution_def while_active_Nil)
next
  case (Cons l rest)
  obtain x y dx dy where l: "l = (x, y, dx, dy)" by (cases l) auto
  have "body self l [] = Return_True" unfolding l by (simp add: body_Return_iff)
  with assms Cons show ?thesis by (simp add: check_solution_def while_active_Return)
qed

lemma trace_diverges:
  assumes closed: "\<And>l p. (l, p) \<in> S \<Longrightarrow> \<exists>l' p'. body self l p = Again l' p' \<and> (l', p') \<in> S"
    and "(l, p) \<in> S"
  shows "trace self l p = None"
proof (rule ccontr)
  assume "trace self l p \<noteq> None"
  then obtain r where t: "trace self l p = Some r" by auto
  have "self = self \<longrightarrow> (l, p) \<notin> S"
  proof (rule trace.raw_induct[where P = "\<lambda>s l p r. s = self \<longrightarrow> (l, p) \<notin> S", OF _ t])
    fix tr s l p r
    assume IH: "\<And>s l p r. tr s l p = Some r \<Longrightarrow> s = self \<longrightarrow> (l, p) \<notin> S"
      and eq: "(case body s l p of Return_True \<Rightarrow> Some None
                | Break remaining new \<Rightarrow> Some (Some (remaining, new))
                | Again lazer' remaining \<Rightarrow> tr s lazer' remaining) = Some r"
    show "s = self \<longrightarrow> (l, p) \<notin> S"
    proof (intro impI notI)
      assume s: "s = self" and "(l, p) \<in> S"
      then obtain l' p' where b: "body self l p = Again l' p'" and m: "(l', p') \<in> S"
        using closed by blast
      with eq s have "tr self l' p' = Some r" by simp
      from IH[OF this] m show False by simp
    qed
  qed
  with assms(2) show False by simp
qed

section \<open>The loops of the solver\<close>

lemma populate_sel_comb [simp]: "populate (self\<lparr>sel_comb := d\<rparr>) = populate self"
  by (simp add: populate_def fun_eq_iff)

lemma try_all_object:
  "try_all self ds = Some (r, self') \<Longrightarrow> \<exists>d. self' = self\<lparr>sel_comb := d\<rparr>"
proof (induction ds arbitrary: self)
  case Nil
  then have "self' = self\<lparr>sel_comb := sel_comb self\<rparr>" by simp
  then show ?case by blast
next
  case (Cons d ds)
  show ?case
  proof (cases "check_solution (self\<lparr>sel_comb := d\<rparr>)")
    case None
    with Cons.prems show ?thesis by simp
  next
    case (Some b)
    show ?thesis
    proof (cases b)
      case True
      with Some Cons.prems show ?thesis by auto
    next
      case False
      with Some Cons.prems have "try_all (self\<lparr>sel_comb := d\<rparr>) ds = Some (r, self')" by simp
      from Cons.IH[OF this] show ?thesis by auto
    qed
  qed
qed

lemma try_all_append:
  "try_all self (ds @ es) =
     (case try_all self ds of
        None \<Rightarrow> None
      | Some (Some d, self') \<Rightarrow> Some (Some d, self')
      | Some (None, self') \<Rightarrow> try_all self' es)"
  by (induction ds arbitrary: self) (auto simp: Let_def split: option.splits bool.splits)

lemma for_i_c_try_all:
  "for_i_c self a_comb b_comb o_lC = try_all self (map (populate self a_comb b_comb) o_lC)"
  by (induction o_lC arbitrary: self) (auto simp: Let_def split: option.splits bool.splits)

lemma cands_b_sel_comb [simp]: "cands_b (self\<lparr>sel_comb := d\<rparr>) = cands_b self"
  by (simp add: cands_b_def fun_eq_iff)

lemma for_i_b_try_all:
  "for_i_b self o_l' a_comb o_lB = try_all self (concat (map (cands_b self o_l' a_comb) o_lB))"
proof (induction o_lB arbitrary: self)
  case Nil
  show ?case by simp
next
  case (Cons i_b o_lB)
  have c: "for_i_c self a_comb i_b
             (combinations (filter (\<lambda>pos. pos \<notin> set i_b) o_l') (C self)) =
           try_all self (cands_b self o_l' a_comb i_b)"
    by (simp add: for_i_c_try_all cands_b_def)
  show ?case
  proof (cases "try_all self (cands_b self o_l' a_comb i_b)")
    case None
    with c show ?thesis by (simp add: try_all_append)
  next
    case (Some res)
    obtain r self' where res: "res = (r, self')" by (cases res)
    from try_all_object Some res obtain d where d: "self' = self\<lparr>sel_comb := d\<rparr>" by blast
    show ?thesis
    proof (cases r)
      case None
      with c Some res d Cons.IH[of self'] show ?thesis by (simp add: try_all_append)
    next
      case (Some e)
      with c \<open>try_all self (cands_b self o_l' a_comb i_b) = Some res\<close> res
      show ?thesis by (simp add: try_all_append)
    qed
  qed
qed

lemma cands_a_sel_comb [simp]: "cands_a (self\<lparr>sel_comb := d\<rparr>) = cands_a self"
  by (simp add: cands_a_def fun_eq_iff)

lemma for_i_a_try_all:
  "for_i_a self o_lA = try_all self (concat (map (cands_a self) o_lA))"
proof (induction o_lA arbitrary: self)
  case Nil
  show ?case by simp
next
  case (Cons i_a o_lA)
  have c: "for_i_b self (filter (\<lambda>pos. pos \<notin> set i_a) (o_l self)) i_a
             (combinations (filter (\<lambda>pos. pos \<notin> set i_a) (o_l self)) (B self)) =
           try_all self (cands_a self i_a)"
    by (simp add: for_i_b_try_all cands_a_def)
  show ?case
  proof (cases "try_all self (cands_a self i_a)")
    case None
    with c show ?thesis by (simp add: try_all_append)
  next
    case (Some res)
    obtain r self' where res: "res = (r, self')" by (cases res)
    from try_all_object Some res obtain d where d: "self' = self\<lparr>sel_comb := d\<rparr>" by blast
    show ?thesis
    proof (cases r)
      case None
      with c Some res d Cons.IH[of self'] show ?thesis by (simp add: try_all_append)
    next
      case (Some e)
      with c \<open>try_all self (cands_a self i_a) = Some res\<close> res
      show ?thesis by (simp add: try_all_append)
    qed
  qed
qed

lemma call_try_all: "call self = try_all self (candidates self)"
  by (simp add: call_def for_i_a_try_all candidates_def)

section \<open>Counting the candidates\<close>

lemma length_combinations: "length (combinations xs r) = length xs choose r"
  by (induction xs r rule: combinations.induct) simp_all

lemma combinations_length: "c \<in> set (combinations xs r) \<Longrightarrow> length c = r"
  by (induction xs r arbitrary: c rule: combinations.induct) auto

lemma combinations_subset: "c \<in> set (combinations xs r) \<Longrightarrow> set c \<subseteq> set xs"
  by (induction xs r arbitrary: c rule: combinations.induct) fastforce+

lemma combinations_distinct:
  "c \<in> set (combinations xs r) \<Longrightarrow> distinct xs \<Longrightarrow> distinct c"
proof (induction xs r arbitrary: c rule: combinations.induct)
  case (3 x xs r)
  from "3.prems"(1) consider c' where "c = x # c'" "c' \<in> set (combinations xs r)"
    | "c \<in> set (combinations xs (Suc r))" by auto
  then show ?case
  proof cases
    case 1
    with "3.prems"(2) "3.IH"(1)[of c'] combinations_subset[of c' xs r] show ?thesis by auto
  next
    case 2
    with "3.prems"(2) "3.IH"(2)[of c] show ?thesis by simp
  qed
qed simp_all

lemma combinations_elem:
  "c \<in> set (combinations xs r) \<Longrightarrow> length c = r \<and> set c \<subseteq> set xs \<and> (distinct xs \<longrightarrow> distinct c)"
  using combinations_length combinations_subset combinations_distinct by blast

lemma length_filter_out:
  assumes "distinct xs" and "distinct c" and "set c \<subseteq> set xs"
  shows "length (filter (\<lambda>pos. pos \<notin> set c) xs) = length xs - length c"
proof -
  have "{x. x \<notin> set c} \<inter> set xs = set xs - set c" by auto
  with assms(1) have "length (filter (\<lambda>pos. pos \<notin> set c) xs) = card (set xs - set c)"
    by (simp add: distinct_length_filter)
  also have "\<dots> = card (set xs) - card (set c)"
    using assms(3) by (simp add: card_Diff_subset)
  finally show ?thesis using assms(1,2) by (simp add: distinct_card)
qed

lemma length_concat_const:
  "(\<And>x. x \<in> set xs \<Longrightarrow> length (f x) = k) \<Longrightarrow> length (concat (map f xs)) = length xs * k"
  by (induction xs) simp_all

lemma length_cands_b:
  assumes "distinct o_l'" and "i_b \<in> set (combinations o_l' nb)"
  shows "length (cands_b self o_l' a_comb i_b) = (length o_l' - nb) choose C self"
proof -
  from combinations_elem[OF assms(2)] assms(1)
  have "length i_b = nb" "set i_b \<subseteq> set o_l'" "distinct i_b" by auto
  with assms(1) show ?thesis
    by (simp add: cands_b_def length_combinations length_filter_out)
qed

lemma length_cands_a:
  assumes "distinct (o_l self)" and "i_a \<in> set (combinations (o_l self) na)"
  shows "length (cands_a self i_a) =
           ((length (o_l self) - na) choose B self) * ((length (o_l self) - na - B self) choose C self)"
proof -
  let ?o = "filter (\<lambda>pos. pos \<notin> set i_a) (o_l self)"
  from combinations_elem[OF assms(2)] assms(1)
  have "length i_a = na" "set i_a \<subseteq> set (o_l self)" "distinct i_a" by auto
  with assms(1) have len: "length ?o = length (o_l self) - na" and d: "distinct ?o"
    by (simp_all add: length_filter_out)
  have "length (cands_b self ?o i_a i_b) = (length (o_l self) - na - B self) choose C self"
    if "i_b \<in> set (combinations ?o (B self))" for i_b
    using length_cands_b[OF d that] len by simp
  then have "length (cands_a self i_a) =
      length (combinations ?o (B self)) * ((length (o_l self) - na - B self) choose C self)"
    unfolding cands_a_def by (rule length_concat_const)
  then show ?thesis by (simp add: length_combinations len)
qed

lemma length_candidates:
  assumes "distinct (o_l self)"
  shows "length (candidates self) =
           (length (o_l self) choose A self) * ((length (o_l self) - A self) choose B self) *
           ((length (o_l self) - A self - B self) choose C self)"
proof -
  have "length (candidates self) = length (combinations (o_l self) (A self)) *
      (((length (o_l self) - A self) choose B self) *
       ((length (o_l self) - A self - B self) choose C self))"
    unfolding candidates_def
    by (rule length_concat_const) (rule length_cands_a[OF assms])
  then show ?thesis by (simp add: length_combinations mult.assoc)
qed

lemma choose_product_zero:
  fixes n a b c :: nat
  assumes "n < a + b + c"
  shows "(n choose a) * ((n - a) choose b) * ((n - a - b) choose c) = 0"
proof -
  from assms have "n < a \<or> n - a < b \<or> n - a - b < c" by arith
  then show ?thesis by (auto simp: binomial_eq_0)
qed

lemma dom_fill: "dom (fill ps name d) = set ps \<union> dom d"
  unfolding fill_def by (induction ps arbitrary: d) auto

lemma candidates_no_inventory:
  assumes "A self = 0" "B self = 0" "C self = 0"
  shows "candidates self =
           [fill (C_l self) ''C'' (fill (B_l self) ''B'' (fill (A_l self) ''A'' Map.empty))]"
  using assms by (simp add: candidates_def cands_a_def cands_b_def populate_def fill_def)

text \<open>
  Claim C3. For a list of \<open>n\<close> open cells (each cell listed once) and an inventory
  \<open>(nA, nB, nC)\<close> the enumerator produces exactly
  \<open>C(n, nA) * C(n - nA, nB) * C(n - nA - nB, nC)\<close> candidates; none when
  \<open>nA + nB + nC > n\<close>; and exactly one, the fixed cells alone, when \<open>nA = nB = nC = 0\<close>.
  These candidates are the ones the loops of \<open>__call__\<close> go through.
\<close>

theorem enumerator_count:
  assumes "distinct (o_l self)"
  shows "length (candidates self) =
           (length (o_l self) choose A self) * ((length (o_l self) - A self) choose B self) *
           ((length (o_l self) - A self - B self) choose C self) \<and>
         (length (o_l self) < A self + B self + C self \<longrightarrow> candidates self = []) \<and>
         (A self = 0 \<and> B self = 0 \<and> C self = 0 \<longrightarrow>
            (\<exists>d. candidates self = [d] \<and>
                 d = fill (C_l self) ''C'' (fill (B_l self) ''B'' (fill (A_l self) ''A'' Map.empty)) \<and>
                 dom d = set (A_l self) \<union> set (B_l self) \<union> set (C_l self))) \<and>
         call self = try_all self (candidates self)"
proof (intro conjI impI)
  show len: "length (candidates self) =
           (length (o_l self) choose A self) * ((length (o_l self) - A self) choose B self) *
           ((length (o_l self) - A self - B self) choose C self)"
    by (rule length_candidates[OF assms])
  show "candidates self = []" if "length (o_l self) < A self + B self + C self"
  proof -
    have "length (candidates self) = 0"
      unfolding len using that by (rule choose_product_zero)
    then show ?thesis by simp
  qed
  show "\<exists>d. candidates self = [d] \<and>
            d = fill (C_l self) ''C'' (fill (B_l self) ''B'' (fill (A_l self) ''A'' Map.empty)) \<and>
            dom d = set (A_l self) \<union> set (B_l self) \<union> set (C_l self)"
    if "A self = 0 \<and> B self = 0 \<and> C self = 0"
    using candidates_no_inventory[of self] that by (auto simp: dom_fill)
  show "call self = try_all self (candidates self)"
    by (rule call_try_all)
qed

section \<open>What the solver returns\<close>

lemma candidates_sel_comb [simp]: "candidates (self\<lparr>sel_comb := d\<rparr>) = candidates self"
  by (simp add: candidates_def)

lemma try_all_forgets:
  "ds \<noteq> [] \<Longrightarrow> try_all (self\<lparr>sel_comb := d\<rparr>) ds = try_all self ds"
  by (cases ds) simp_all

lemma try_all_result_forgets:
  "map_option fst (try_all (self\<lparr>sel_comb := d\<rparr>) ds) = map_option fst (try_all self ds)"
  by (cases ds) simp_all

text \<open>
  Claim C9. For a fixed puzzle any two runs of the solver give the same result: what
  \<open>__call__\<close> returns does not depend on the dictionary an earlier run left in
  \<open>self.sel_comb\<close>, and a second run on the object the first run leaves behind returns
  what the first returned.
\<close>

theorem call_deterministic:
  "map_option fst (call (self\<lparr>sel_comb := d\<rparr>)) = map_option fst (call self) \<and>
   (\<forall>r self'. call self = Some (r, self') \<longrightarrow> map_option fst (call self') = Some r)"
proof
  show first: "map_option fst (call (self\<lparr>sel_comb := d\<rparr>)) = map_option fst (call self)" for d
    by (simp add: call_try_all try_all_result_forgets)
  show "\<forall>r self'. call self = Some (r, self') \<longrightarrow> map_option fst (call self') = Some r"
  proof (intro allI impI)
    fix r self'
    assume c: "call self = Some (r, self')"
    then obtain e where "self' = self\<lparr>sel_comb := e\<rparr>"
      using try_all_object[of self "candidates self" r self'] by (auto simp: call_try_all)
    with first[of e] c show "map_option fst (call self') = Some r" by simp
  qed
qed

text \<open>
  Claim C10. With an empty target list \<open>check_solution\<close> returns \<open>True\<close> for every
  placement, so the solver returns the first enumerated candidate (and \<open>None\<close> when
  there is no candidate at all).
\<close>

theorem no_points_first_candidate:
  assumes "points self = []"
  shows "check_solution (self\<lparr>sel_comb := d\<rparr>) = Some True \<and>
         call self = (case candidates self of
                        [] \<Rightarrow> Some (None, self)
                      | d # ds \<Rightarrow> Some (Some d, self\<lparr>sel_comb := d\<rparr>))"
proof
  show c: "check_solution (self\<lparr>sel_comb := d\<rparr>) = Some True" for d
    using assms by (simp add: check_solution_no_points)
  show "call self = (case candidates self of
                        [] \<Rightarrow> Some (None, self)
                      | d # ds \<Rightarrow> Some (Some d, self\<lparr>sel_comb := d\<rparr>))"
    by (cases "candidates self") (simp_all add: call_try_all c)
qed

text \<open>
  Whenever every simulation the solver starts comes to an end, the solver returns the
  first candidate in enumeration order that the simulator accepts, and \<open>None\<close> when
  it accepts none.
\<close>

lemma try_all_first_success:
  assumes "\<And>d. d \<in> set ds \<Longrightarrow> check_solution (self\<lparr>sel_comb := d\<rparr>) \<noteq> None"
  shows "map_option fst (try_all self ds) =
           Some (find (\<lambda>d. check_solution (self\<lparr>sel_comb := d\<rparr>) = Some True) ds)"
  using assms
proof (induction ds arbitrary: self)
  case Nil
  show ?case by simp
next
  case (Cons d ds)
  from Cons.prems[of d] obtain b where b: "check_solution (self\<lparr>sel_comb := d\<rparr>) = Some b" by auto
  show ?case
  proof (cases b)
    case True
    with b show ?thesis by simp
  next
    case False
    have "map_option fst (try_all (self\<lparr>sel_comb := d\<rparr>) ds) =
        Some (find (\<lambda>e. check_solution (self\<lparr>sel_comb := d\<rparr>\<lparr>sel_comb := e\<rparr>) = Some True) ds)"
      by (rule Cons.IH) (use Cons.prems in simp)
    with b False show ?thesis by simp
  qed
qed

lemma call_first_success:
  assumes "\<And>d. d \<in> set (candidates self) \<Longrightarrow> check_solution (self\<lparr>sel_comb := d\<rparr>) \<noteq> None"
  shows "map_option fst (call self) =
           Some (find (\<lambda>d. check_solution (self\<lparr>sel_comb := d\<rparr>) = Some True) (candidates self))"
  unfolding call_try_all by (rule try_all_first_success) (rule assms)

section \<open>The ring puzzle\<close>

lemmas ring_eval =
  ring_puzzle_def ring_first_def ring_second_def ring_split_def populate_def fill_def
  body_def upd_pos_def pos_chk_def dict_get_def reflect_def refract_def is_integer_iff

lemma ring_candidates: "candidates ring_puzzle = [sel_comb ring_first, sel_comb ring_second]"
  by (simp add: candidates_def cands_a_def cands_b_def ring_eval)

lemma ring_first_body:
  "body ring_first (1, 3 / 2, 1 / 2, 1 / 2) [(1 / 2, 2)] = Again (3 / 2, 2, 1 / 2, 1 / 2) [(1 / 2, 2)]"
  "body ring_first (3 / 2, 2, 1 / 2, 1 / 2) [(1 / 2, 2)] = Again (2, 3 / 2, 1 / 2, - (1 / 2)) [(1 / 2, 2)]"
  "body ring_first (2, 3 / 2, 1 / 2, - (1 / 2)) [(1 / 2, 2)] = Again (3 / 2, 1, - (1 / 2), - (1 / 2)) [(1 / 2, 2)]"
  "body ring_first (3 / 2, 1, - (1 / 2), - (1 / 2)) [(1 / 2, 2)] = Again (1, 3 / 2, - (1 / 2), 1 / 2) [(1 / 2, 2)]"
  "body ring_first (1, 3 / 2, - (1 / 2), 1 / 2) [(1 / 2, 2)] = Again (3 / 2, 2, 1 / 2, 1 / 2) [(1 / 2, 2)]"
  by (simp_all add: ring_eval)

lemma ring_cycle_closed:
  assumes "l \<in> set ring_cycle"
  shows "\<exists>l'. body ring_first l [(1 / 2, 2)] = Again l' [(1 / 2, 2)] \<and> l' \<in> set ring_cycle"
proof -
  from assms consider "l = (1, 3 / 2, 1 / 2, 1 / 2)" | "l = (3 / 2, 2, 1 / 2, 1 / 2)"
    | "l = (2, 3 / 2, 1 / 2, - (1 / 2))" | "l = (3 / 2, 1, - (1 / 2), - (1 / 2))"
    | "l = (1, 3 / 2, - (1 / 2), 1 / 2)"
    unfolding ring_cycle_def by auto
  then show ?thesis
  proof cases
    case 1 then show ?thesis using ring_first_body(1) by (simp add: ring_cycle_def)
  next
    case 2 then show ?thesis using ring_first_body(2) by (simp add: ring_cycle_def)
  next
    case 3 then show ?thesis using ring_first_body(3) by (simp add: ring_cycle_def)
  next
    case 4 then show ?thesis using ring_first_body(4) by (simp add: ring_cycle_def)
  next
    case 5 then show ?thesis using ring_first_body(5) by (simp add: ring_cycle_def)
  qed
qed

lemma ring_first_trace: "trace ring_first (1, 3 / 2, 1 / 2, 1 / 2) [(1 / 2, 2)] = None"
proof (rule trace_diverges)
  let ?S = "set ring_cycle \<times> {[(1 / 2, 2) :: point]}"
  show "((1, 3 / 2, 1 / 2, 1 / 2), [(1 / 2, 2)]) \<in> ?S"
    by (simp add: ring_cycle_def)
  fix l p
  assume "(l, p) \<in> ?S"
  then show "\<exists>l' p'. body ring_first l p = Again l' p' \<and> (l', p') \<in> ?S"
    using ring_cycle_closed[of l] by auto
qed

lemma ring_first_passes:
  "l \<in> set ring_cycle \<Longrightarrow>
     \<exists>l'. l' \<in> set ring_cycle \<and> passes ring_first n ([l], [(1 / 2, 2)]) = Some ([l'], [(1 / 2, 2)])"
proof (induction n arbitrary: l)
  case 0
  then have "l \<in> set ring_cycle \<and>
      passes ring_first 0 ([l], [(1 / 2, 2)]) = Some ([l], [(1 / 2, 2)])"
    by simp
  then show ?case by (rule exI)
next
  case (Suc n)
  from ring_cycle_closed[OF Suc.prems] obtain l1
    where b: "body ring_first l [(1 / 2, 2)] = Again l1 [(1 / 2, 2)]" and m: "l1 \<in> set ring_cycle"
    by blast
  from Suc.IH[OF m] obtain l2 where "l2 \<in> set ring_cycle"
    and "passes ring_first n ([l1], [(1 / 2, 2)]) = Some ([l2], [(1 / 2, 2)])"
    by blast
  with b have "l2 \<in> set ring_cycle \<and>
      passes ring_first (Suc n) ([l], [(1 / 2, 2)]) = Some ([l2], [(1 / 2, 2)])"
    by (simp add: pass_step_def)
  then show ?case by (rule exI)
qed

lemma ring_first_check: "check_solution ring_first = None"
proof -
  have "lazers ring_first = [(1, 3 / 2, 1 / 2, 1 / 2)]" "points ring_first = [(1 / 2, 2)]"
    by (simp_all add: ring_first_def ring_puzzle_def)
  then show ?thesis
    by (simp add: check_solution_def while_active_Cons ring_first_trace)
qed

lemma ring_second_body:
  "body ring_second (1, 3 / 2, 1 / 2, 1 / 2) [(1 / 2, 2)] = Again (1 / 2, 2, - (1 / 2), 1 / 2) [(1 / 2, 2)]"
  "body ring_second (1 / 2, 2, - (1 / 2), 1 / 2) [(1 / 2, 2)] = Return_True"
  by (simp_all add: ring_eval)

lemma ring_second_check: "check_solution ring_second = Some True"
proof -
  have "lazers ring_second = [(1, 3 / 2, 1 / 2, 1 / 2)]" "points ring_second = [(1 / 2, 2)]"
    by (simp_all add: ring_second_def ring_puzzle_def)
  then show ?thesis
    using while_active_Again[OF ring_second_body(1), of "[]"]
      while_active_Return[OF ring_second_body(2), of "[]"]
    by (simp add: check_solution_def)
qed

text \<open>
  Claim C2 at the ring puzzle. The claim is that a single beam visits at most
  \<open>width * height * 4\<close> states and then ends. With the first candidate placed, the
  lazor of the ring puzzle, a diagonal beam on a three by three board that
  satisfies the invariant, goes round the four reflecting blocks for ever: its trace
  has no result, and after any number of passes of the inner loop the beam is still
  being traced with the target outstanding.
\<close>

theorem ring_beam_never_ends:
  "paired_inv (1, 3 / 2, 1 / 2, 1 / 2) \<and> size_wh ring_first = (3, 3) \<and>
   trace ring_first (1, 3 / 2, 1 / 2, 1 / 2) [(1 / 2, 2)] = None \<and>
   (\<forall>n. \<exists>l'. passes ring_first n ([(1, 3 / 2, 1 / 2, 1 / 2)], [(1 / 2, 2)]) = Some ([l'], [(1 / 2, 2)]))"
proof -
  have "(1, 3 / 2, 1 / 2, 1 / 2) \<in> set ring_cycle" by (simp add: ring_cycle_def)
  from ring_first_passes[OF this]
  have "\<forall>n. \<exists>l'. passes ring_first n ([(1, 3 / 2, 1 / 2, 1 / 2)], [(1 / 2, 2)]) = Some ([l'], [(1 / 2, 2)])"
    by blast
  then show ?thesis
    using ring_first_trace
    by (simp add: paired_inv_def half_integer_inv_def is_integer_iff ring_first_def ring_puzzle_def)
qed

text \<open>
  Claim C1 at the ring puzzle. The claim is that the solver returns the first
  candidate the simulator accepts. The simulator accepts the second of the two
  candidates, yet the solver returns nothing, because the simulation of the first
  never ends.
\<close>

theorem ring_solver_never_returns:
  "candidates ring_puzzle = [sel_comb ring_first, sel_comb ring_second] \<and>
   check_solution ring_second = Some True \<and> call ring_puzzle = None"
proof -
  have "ring_puzzle\<lparr>sel_comb := sel_comb ring_first\<rparr> = ring_first"
    by (simp add: ring_first_def)
  then have "try_all ring_puzzle [sel_comb ring_first, sel_comb ring_second] = None"
    by (simp add: ring_first_check)
  then show ?thesis
    using ring_candidates ring_second_check by (simp add: call_try_all)
qed

section \<open>Concrete instances\<close>

theorem reflect_mirrors_witness:
  "half_integer_inv (1, 3 / 2, 1 / 2, 1 / 2) \<and> is_integer 1 \<and>
   reflect (1, 3 / 2, 1 / 2, 1 / 2) = (1 - 1 / 2, 3 / 2 + 1 / 2, - (1 / 2), 1 / 2) \<and>
   half_integer_inv (3 / 2, 2, 1 / 2, 1 / 2) \<and> is_integer 2 \<and>
   reflect (3 / 2, 2, 1 / 2, 1 / 2) = (3 / 2 + 1 / 2, 2 - 1 / 2, 1 / 2, - (1 / 2))"
proof -
  have h: "half_integer_inv (1, 3 / 2, 1 / 2, 1 / 2)" "half_integer_inv (3 / 2, 2, 1 / 2, 1 / 2)"
    and i: "is_integer 1" "is_integer 2"
    by (simp_all add: half_integer_inv_def is_integer_iff)
  show ?thesis
    using reflect_mirrors[OF h(1)] reflect_mirrors[OF h(2)] h i by simp
qed

theorem upd_pos_entered_cell_witness:
  "half_integer_inv (1, 3 / 2, 1 / 2, 1 / 2) \<and> is_integer 1 \<and> (1 / 2 :: rat) \<noteq> 0 \<and>
   upd_pos (1, 3 / 2, 1 / 2, 1 / 2) = (1, of_int \<lfloor>3 / 2 :: rat\<rfloor>) \<and>
   half_integer_inv (3 / 2, 2, 1 / 2, - (1 / 2)) \<and> is_integer 2 \<and> (- (1 / 2) :: rat) \<noteq> 0 \<and>
   upd_pos (3 / 2, 2, 1 / 2, - (1 / 2)) = (of_int \<lfloor>3 / 2 :: rat\<rfloor>, 2 - 1)"
proof -
  have h: "half_integer_inv (1, 3 / 2, 1 / 2, 1 / 2)" "half_integer_inv (3 / 2, 2, 1 / 2, - (1 / 2))"
    and i: "is_integer 1" "is_integer 2"
    by (simp_all add: half_integer_inv_def is_integer_iff)
  show ?thesis
    using upd_pos_entered_cell[OF h(1)] upd_pos_entered_cell[OF h(2)] h i by simp
qed

theorem upd_pos_entered_cell_counterexample:
  "half_integer_inv (1, 1 / 2, 0, 1 / 2) \<and> is_integer 1 \<and> \<not> (0 :: rat) > 0 \<and>
   upd_pos (1, 1 / 2, 0, 1 / 2) = (1 / 2, 1 / 2) \<and>
   upd_pos (1, 1 / 2, 0, 1 / 2) \<noteq> (1 - 1, 1 / 2 - 1 / 2)"
  by (simp add: half_integer_inv_def upd_pos_def is_integer_iff)

theorem half_integer_inv_counterexample:
  "half_integer_inv (0, 1 / 2, 1 / 2, 0) \<and>
   body ring_puzzle (0, 1 / 2, 1 / 2, 0) [(1 / 2, 2)] = Again (1 / 2, 1 / 2, 1 / 2, 0) [(1 / 2, 2)] \<and>
   \<not> half_integer_inv (1 / 2, 1 / 2, 1 / 2, 0)"
  by (simp add: half_integer_inv_def ring_eval)

theorem paired_inv_preserved_witness:
  "paired_inv (1, 3 / 2, 1 / 2, 1 / 2) \<and>
   body ring_first (1, 3 / 2, 1 / 2, 1 / 2) [(1 / 2, 2)] = Again (3 / 2, 2, 1 / 2, 1 / 2) [(1 / 2, 2)] \<and>
   paired_inv (3 / 2, 2, 1 / 2, 1 / 2) \<and>
   body ring_split (1, 3 / 2, 1 / 2, 1 / 2) [(1 / 2, 2)] =
     Break [(1 / 2, 2)] [(3 / 2, 2, 1 / 2, 1 / 2), (1 / 2, 2, - (1 / 2), 1 / 2)] \<and>
   list_all paired_inv [(3 / 2, 2, 1 / 2, 1 / 2), (1 / 2, 2, - (1 / 2), 1 / 2)] \<and>
   paired_inv (reflect (1, 3 / 2, 1 / 2, 1 / 2)) \<and>
   list_all paired_inv (refract (1, 3 / 2, 1 / 2, 1 / 2))"
proof -
  have h: "paired_inv (1, 3 / 2, 1 / 2, 1 / 2)"
    by (simp add: paired_inv_def half_integer_inv_def is_integer_iff)
  have b: "body ring_split (1, 3 / 2, 1 / 2, 1 / 2) [(1 / 2, 2)] =
     Break [(1 / 2, 2)] [(3 / 2, 2, 1 / 2, 1 / 2), (1 / 2, 2, - (1 / 2), 1 / 2)]"
    by (simp add: ring_eval)
  from paired_inv_preserved[OF h] ring_first_body(1) b h show ?thesis by blast
qed


theorem outstanding_targets_monotone_witness:
  "passes ring_second 1 ([(1, 3 / 2, 1 / 2, 1 / 2)], [(1 / 2, 2)]) =
     Some ([(1 / 2, 2, - (1 / 2), 1 / 2)], [(1 / 2, 2)]) \<and>
   length [(1 / 2 :: rat, 2 :: rat)] \<le> length [(1 / 2 :: rat, 2 :: rat)] \<and>
   filter (\<lambda>p. p \<noteq> (1 / 2, 2)) [(1 / 2 :: rat, 2 :: rat)] = [] \<and>
   body ring_second (1 / 2, 2, - (1 / 2), 1 / 2) [(1 / 2, 2)] = Return_True \<and>
   while_active ring_second [(1, 3 / 2, 1 / 2, 1 / 2)] [(1 / 2, 2)] = Some True"
proof -
  have h: "passes ring_second 1 ([(1, 3 / 2, 1 / 2, 1 / 2)], [(1 / 2, 2)]) =
     Some ([(1 / 2, 2, - (1 / 2), 1 / 2)], [(1 / 2, 2)])"
    by (simp add: pass_step_def ring_second_body)
  note m = outstanding_targets_monotone[OF h]
  have f: "filter (\<lambda>p. p \<noteq> (1 / 2, 2)) [(1 / 2 :: rat, 2 :: rat)] = []" by simp
  from m[THEN conjunct2, THEN conjunct2, THEN conjunct2, rule_format, of "1 / 2" 2 "- (1 / 2)" "1 / 2" "[]"] f
  have "body ring_second (1 / 2, 2, - (1 / 2), 1 / 2) [(1 / 2, 2)] = Return_True \<and>
        while_active ring_second [(1, 3 / 2, 1 / 2, 1 / 2)] [(1 / 2, 2)] = Some True"
    by blast
  with m h f show ?thesis by simp
qed

theorem enumerator_count_witness:
  "distinct (o_l ring_puzzle) \<and> length (candidates ring_puzzle) = 2 \<and>
   length (o_l (ring_puzzle\<lparr>B := 2\<rparr>)) <
     A (ring_puzzle\<lparr>B := 2\<rparr>) + B (ring_puzzle\<lparr>B := 2\<rparr>) + C (ring_puzzle\<lparr>B := 2\<rparr>) \<and>
   candidates (ring_puzzle\<lparr>B := 2\<rparr>) = [] \<and>
   A (ring_puzzle\<lparr>A := 0\<rparr>) = 0 \<and> B (ring_puzzle\<lparr>A := 0\<rparr>) = 0 \<and> C (ring_puzzle\<lparr>A := 0\<rparr>) = 0 \<and>
   candidates (ring_puzzle\<lparr>A := 0\<rparr>) =
     [ [(1, 2) \<mapsto> ''A'', (0, 1) \<mapsto> ''A'', (2, 1) \<mapsto> ''A'', (1, 0) \<mapsto> ''A''] ]"
proof -
  have d: "distinct (o_l ring_puzzle)" "distinct (o_l (ring_puzzle\<lparr>B := 2\<rparr>))"
    "distinct (o_l (ring_puzzle\<lparr>A := 0\<rparr>))"
    by (simp_all add: ring_puzzle_def)
  have v: "length (o_l ring_puzzle) = 2" "A ring_puzzle = 1" "B ring_puzzle = 0" "C ring_puzzle = 0"
    "A_l ring_puzzle = [(1, 2), (0, 1), (2, 1), (1, 0)]" "B_l ring_puzzle = []" "C_l ring_puzzle = []"
    by (simp_all add: ring_puzzle_def)
  from enumerator_count[OF d(1)] have "length (candidates ring_puzzle) = 2"
    by (simp add: v)
  moreover from enumerator_count[OF d(2)] have "candidates (ring_puzzle\<lparr>B := 2\<rparr>) = []"
    by (simp add: v)
  moreover from enumerator_count[OF d(3)] have "candidates (ring_puzzle\<lparr>A := 0\<rparr>) =
     [ [(1, 2) \<mapsto> ''A'', (0, 1) \<mapsto> ''A'', (2, 1) \<mapsto> ''A'', (1, 0) \<mapsto> ''A''] ]"
    by (simp add: v fill_def)
  ultimately show ?thesis using d by (simp add: v)
qed

lemma swapped_first_body:
  "body swapped_first (1, 3 / 2, 1 / 2, 1 / 2) [(1 / 2, 2)] = Again (1 / 2, 2, - (1 / 2), 1 / 2) [(1 / 2, 2)]"
  "body swapped_first (1 / 2, 2, - (1 / 2), 1 / 2) [(1 / 2, 2)] = Return_True"
  by (simp_all add: swapped_first_def swapped_puzzle_def ring_eval)

lemma swapped_first_check: "check_solution swapped_first = Some True"
proof -
  have "lazers swapped_first = [(1, 3 / 2, 1 / 2, 1 / 2)]" "points swapped_first = [(1 / 2, 2)]"
    by (simp_all add: swapped_first_def swapped_puzzle_def ring_puzzle_def)
  then show ?thesis
    using while_active_Again[OF swapped_first_body(1), of "[]"]
      while_active_Return[OF swapped_first_body(2), of "[]"]
    by (simp add: check_solution_def)
qed

lemma swapped_call: "call swapped_puzzle = Some (Some (sel_comb swapped_first), swapped_first)"
proof -
  have c: "candidates swapped_puzzle =
      [sel_comb swapped_first, populate swapped_puzzle [(0, 2)] [] []]"
    by (simp add: candidates_def cands_a_def cands_b_def swapped_first_def swapped_puzzle_def ring_eval)
  have "swapped_puzzle\<lparr>sel_comb := sel_comb swapped_first\<rparr> = swapped_first"
    by (simp add: swapped_first_def)
  then show ?thesis
    by (simp add: call_try_all c swapped_first_check)
qed

theorem call_deterministic_witness:
  "call swapped_puzzle = Some (Some (sel_comb swapped_first), swapped_first) \<and>
   map_option fst (call swapped_first) = Some (Some (sel_comb swapped_first)) \<and>
   map_option fst (call (swapped_puzzle\<lparr>sel_comb := sel_comb ring_first\<rparr>)) =
     Some (Some (sel_comb swapped_first))"
  using call_deterministic[where self = swapped_puzzle and d = "sel_comb ring_first"] swapped_call
  by simp

theorem no_points_first_candidate_witness:
  "points (ring_puzzle\<lparr>points := []\<rparr>) = [] \<and>
   check_solution (ring_first\<lparr>points := []\<rparr>) = Some True \<and>
   call (ring_puzzle\<lparr>points := []\<rparr>) = Some (Some (sel_comb ring_first), ring_first\<lparr>points := []\<rparr>)"
proof -
  have h: "points (ring_puzzle\<lparr>points := []\<rparr>) = []" by simp
  have c: "candidates (ring_puzzle\<lparr>points := []\<rparr>) = [sel_comb ring_first, sel_comb ring_second]"
    by (simp add: candidates_def cands_a_def cands_b_def ring_eval)
  have f: "ring_puzzle\<lparr>points := [], sel_comb := sel_comb ring_first\<rparr> = ring_first\<lparr>points := []\<rparr>"
    by (simp add: ring_first_def)
  from no_points_first_candidate[OF h, of "sel_comb ring_first"] h show ?thesis
    by (simp add: c f)
qed

end
